theory Spec2Isabelle
  imports Complex_Main "HOL-Library.Char_ord" "HOL-Library.List_Lexorder" "HOL-Library.AList"
begin

section \<open>Map page helpers: busiest bucket\<close>

text \<open>
  \<^verbatim>\<open>type HourBucket = { hour: number; count: number }\<close> and
  \<^verbatim>\<open>type DayBucket = { day: string; count: number }\<close>.
  The counts and hours arrive as JSON integers and are modelled as \<open>int\<close>; the day
  label is a string, compared by \<^verbatim>\<open><\<close> as JavaScript does: lexicographically, character
  code by character code (the order of \<open>char list\<close> under Char_ord and List_Lexorder).
\<close>

record HourBucket =
  hour :: int
  count :: int

record DayBucket =
  day :: string
  dcount :: int

text \<open>
  The callback handed to \<^verbatim>\<open>buckets.reduce\<close>:
  \<^verbatim>\<open>b.count > best.count || (b.count === best.count && b.hour < best.hour) ? b : best\<close>.
\<close>

definition pickHour :: "HourBucket \<Rightarrow> HourBucket \<Rightarrow> HourBucket" where
  "pickHour best b =
     (if count b > count best \<or> (count b = count best \<and> hour b < hour best) then b else best)"

definition pickDay :: "DayBucket \<Rightarrow> DayBucket \<Rightarrow> DayBucket" where
  "pickDay best b =
     (if dcount b > dcount best \<or> (dcount b = dcount best \<and> day b < day best) then b else best)"

text \<open>
  \<^verbatim>\<open>if (!buckets.length) return null; return buckets.reduce(...)\<close>: a reduce without an
  initial value starts from the first element and folds the rest from the left.
\<close>

definition busiestHour :: "HourBucket list \<Rightarrow> HourBucket option" where
  "busiestHour buckets =
     (case buckets of [] \<Rightarrow> None | b0 # rest \<Rightarrow> Some (foldl pickHour b0 rest))"

definition busiestDay :: "DayBucket list \<Rightarrow> DayBucket option" where
  "busiestDay buckets =
     (case buckets of [] \<Rightarrow> None | b0 # rest \<Rightarrow> Some (foldl pickDay b0 rest))"

section \<open>Zone comparison panel: adding a zone\<close>

definition MAX_ZONES :: nat where
  "MAX_ZONES = 5"

text \<open>
  \<^verbatim>\<open>if (selectedIds.includes(id) || selectedIds.length >= MAX_ZONES) return;\<close>
  \<^verbatim>\<open>onSelectionChange([...selectedIds, id]);\<close>
  The result is the argument handed to \<^verbatim>\<open>onSelectionChange\<close>, or \<open>None\<close> when the
  callback is not invoked.
\<close>

definition addZone :: "int list \<Rightarrow> int \<Rightarrow> int list option" where
  "addZone selectedIds zid =
     (if zid \<in> set selectedIds \<or> length selectedIds \<ge> MAX_ZONES then None
      else Some (selectedIds @ [zid]))"

text \<open>
  The parent's \<^verbatim>\<open>handleZoneSelectionChange\<close> stores the list it is given
  (\<^verbatim>\<open>setSelectedZoneIds(ids)\<close>); without a call the selection stays as it is.
\<close>

definition selectionAfterAddZone :: "int list \<Rightarrow> int \<Rightarrow> int list" where
  "selectionAfterAddZone selectedIds zid =
     (case addZone selectedIds zid of None \<Rightarrow> selectedIds | Some ids \<Rightarrow> ids)"

section \<open>Client-side hotspots cache: key derivation\<close>

text \<open>
  \<^verbatim>\<open>type FetchHotspotsParams = { bbox: string; cell_m?: number; ...; violation_type?: string }\<close>.
  An optional field is an \<open>option\<close>; \<open>None\<close> stands for a field that is absent
  (\<^verbatim>\<open>undefined\<close>, or \<^verbatim>\<open>null\<close>: the code tests with \<^verbatim>\<open>??\<close> and \<^verbatim>\<open>!= null\<close>, which
  treat both alike). The numeric fields carry integers (cell sizes in metres, day
  counts, row limits, hours) and are modelled as \<open>int\<close>. The field \<^verbatim>\<open>end\<close> is written
  \<open>end'\<close>.
\<close>

record FetchHotspotsParams =
  bbox :: string
  cell_m :: "int option"
  recent_days :: "int option"
  baseline_days :: "int option"
  limit :: "int option"
  start :: "string option"
  end' :: "string option"
  hour_start :: "int option"
  hour_end :: "int option"
  violation_type :: "string option"

text \<open>
  \<^verbatim>\<open>String(n)\<close> on an integer: its decimal digits, with a leading minus sign when it
  is negative.
\<close>

fun natDigits :: "nat \<Rightarrow> string" where
  "natDigits n =
     (if n < 10 then [''0123456789'' ! n]
      else natDigits (n div 10) @ [''0123456789'' ! (n mod 10)])"

declare natDigits.simps [simp del]

definition String :: "int \<Rightarrow> string" where
  "String n = (if n < 0 then CHR ''-'' # natDigits (nat (- n)) else natDigits (nat n))"

text \<open>\<^verbatim>\<open>v ?? d\<close>, and \<^verbatim>\<open>if (v != null) k.push(v)\<close> as the list of elements pushed.\<close>

definition orDefault :: "'a option \<Rightarrow> 'a \<Rightarrow> 'a" where
  "orDefault v d = (case v of None \<Rightarrow> d | Some x \<Rightarrow> x)"

definition pushIfPresent :: "string option \<Rightarrow> string list" where
  "pushIfPresent v = (case v of None \<Rightarrow> [] | Some x \<Rightarrow> [x])"

text \<open>\<^verbatim>\<open>Array.prototype.join(sep)\<close> on an array of strings.\<close>

fun join :: "string \<Rightarrow> string list \<Rightarrow> string" where
  "join sep [] = []"
| "join sep [x] = x"
| "join sep (x # y # ys) = x @ sep @ join sep (y # ys)"

text \<open>
  \<^verbatim>\<open>const k = [params.bbox, String(params.cell_m ?? 250), String(params.recent_days ?? 7),\<close>
  \<^verbatim>\<open>  String(params.baseline_days ?? 30), String(params.limit ?? 3000)];\<close>
  \<^verbatim>\<open>if (params.start != null) k.push(params.start); ... return k.join('|');\<close>
\<close>

definition hotspotsCacheKey :: "FetchHotspotsParams \<Rightarrow> string" where
  "hotspotsCacheKey params =
     join ''|''
       ([bbox params,
         String (orDefault (cell_m params) 250),
         String (orDefault (recent_days params) 7),
         String (orDefault (baseline_days params) 30),
         String (orDefault (limit params) 3000)]
        @ pushIfPresent (start params)
        @ pushIfPresent (end' params)
        @ pushIfPresent (map_option String (hour_start params))
        @ pushIfPresent (map_option String (hour_end params))
        @ pushIfPresent (violation_type params))"

text \<open>A request that gives only the bounding box, every optional field absent.\<close>

definition forBbox :: "string \<Rightarrow> FetchHotspotsParams" where
  "forBbox b = \<lparr>bbox = b, cell_m = None, recent_days = None, baseline_days = None,
      limit = None, start = None, end' = None, hour_start = None, hour_end = None,
      violation_type = None\<rparr>"

section \<open>Client-side hotspots cache: entries, pruning, lookup\<close>

definition HOTSPOTS_CACHE_TTL_MS :: int where
  "HOTSPOTS_CACHE_TTL_MS = 3000"

definition HOTSPOTS_CACHE_MAX_ENTRIES :: nat where
  "HOTSPOTS_CACHE_MAX_ENTRIES = 50"

text \<open>
  \<^verbatim>\<open>type HotspotsCacheEntry = { data; ts } | { ts; inFlightPromise }\<close>. The payload type
  is a parameter \<open>'r\<close>; times are \<^verbatim>\<open>Date.now()\<close> milliseconds; a promise is identified by
  a number, fresh for every fetch that is issued.

  \<^verbatim>\<open>hotspotsCache\<close> is a JavaScript \<^verbatim>\<open>Map\<close>, which iterates in insertion order: an
  association list in that order. \<^verbatim>\<open>Map.set\<close> on a key that is present replaces the
  value in place and appends otherwise (\<open>AList.update\<close>); \<^verbatim>\<open>Map.delete\<close> removes the
  key (\<open>AList.delete\<close>); \<^verbatim>\<open>Map.get\<close> is \<open>map_of\<close>.
\<close>

datatype 'r HotspotsCacheEntry =
    Data (data: 'r) (ts: int)
  | InFlight (ts: int) (inFlightPromise: nat)

type_synonym 'r cache = "(string \<times> 'r HotspotsCacheEntry) list"

text \<open>\<^verbatim>\<open>'data' in v\<close>.\<close>

definition hasData :: "'r HotspotsCacheEntry \<Rightarrow> bool" where
  "hasData v = (case v of Data d t \<Rightarrow> True | InFlight t p \<Rightarrow> False)"

text \<open>
  \<^verbatim>\<open>[...hotspotsCache.entries()].filter(([k, v]) => k !== excludeKey && 'data' in v)\<close>
  \<^verbatim>\<open>  .sort((a, b) => a[1].ts - b[1].ts)\<close>. The sort of an array is stable, as
  \<open>sort_key\<close> is.
\<close>

definition pruneCandidates :: "string \<Rightarrow> 'r cache \<Rightarrow> 'r cache" where
  "pruneCandidates excludeKey c =
     sort_key (\<lambda>e. ts (snd e)) (filter (\<lambda>e. fst e \<noteq> excludeKey \<and> hasData (snd e)) c)"

text \<open>
  \<^verbatim>\<open>if (hotspotsCache.size < HOTSPOTS_CACHE_MAX_ENTRIES) return;\<close>
  \<^verbatim>\<open>const victim = candidates[0]; if (victim) hotspotsCache.delete(victim[0]);\<close>
  The capacity is a parameter of \<open>pruneCache\<close>, so that the function can also be run at
  a small capacity; \<open>pruneHotspotsCache\<close> is the function of the source, at capacity 50.
\<close>

definition pruneCache :: "nat \<Rightarrow> string \<Rightarrow> 'r cache \<Rightarrow> 'r cache" where
  "pruneCache maxEntries excludeKey c =
     (if length c < maxEntries then c
      else (case pruneCandidates excludeKey c of
              [] \<Rightarrow> c
            | victim # rest \<Rightarrow> AList.delete (fst victim) c))"

definition pruneHotspotsCache :: "string \<Rightarrow> 'r cache \<Rightarrow> 'r cache" where
  "pruneHotspotsCache = pruneCache HOTSPOTS_CACHE_MAX_ENTRIES"

text \<open>
  The module state: the cache, the fetches that have been issued and have not settled
  yet (each with the key its callbacks captured), and the next fresh promise number,
  which is also the number of network fetches issued so far.
\<close>

record 'r state =
  hotspotsCache :: "'r cache"
  pending :: "(nat \<times> string) list"
  nextPromise :: nat

definition init :: "'r state" where
  "init = \<lparr>hotspotsCache = [], pending = [], nextPromise = 0\<rparr>"

text \<open>
  What a call of \<^verbatim>\<open>fetchHotspotsGridCached\<close> returns: the cached data
  (\<^verbatim>\<open>return entry.data\<close>), the promise of a fetch already in flight
  (\<^verbatim>\<open>return entry.inFlightPromise\<close>), or the promise of a fetch it has just issued.
\<close>

datatype 'r outcome = CacheHit 'r | Dedupe nat | Miss nat

text \<open>
  The miss path:
  \<^verbatim>\<open>pruneHotspotsCache(key); const promise = doFetch();\<close>
  \<^verbatim>\<open>hotspotsCache.set(key, { ts: now, inFlightPromise: promise });\<close>
  \<^verbatim>\<open>promise.catch(() => { hotspotsCache.delete(key); }); return promise;\<close>
  The two callbacks run later, when the fetch settles: \<open>resolveFetch\<close> and
  \<open>rejectFetch\<close> below.
\<close>

definition startFetch :: "nat \<Rightarrow> string \<Rightarrow> int \<Rightarrow> 'r state \<Rightarrow> 'r outcome \<times> 'r state" where
  "startFetch maxEntries key now s =
     (let promise = nextPromise s in
      (Miss promise,
       s\<lparr>hotspotsCache :=
            AList.update key (InFlight now promise) (pruneCache maxEntries key (hotspotsCache s)),
          pending := (promise, key) # pending s,
          nextPromise := Suc promise\<rparr>))"

text \<open>
  \<^verbatim>\<open>const entry = hotspotsCache.get(key); const now = Date.now();\<close>
  \<^verbatim>\<open>if (entry) { if (entry.inFlightPromise) return entry.inFlightPromise;\<close>
  \<^verbatim>\<open>  if (now - entry.ts < HOTSPOTS_CACHE_TTL_MS) return entry.data; }\<close>
  followed by the miss path. \<open>now\<close> is the value \<^verbatim>\<open>Date.now()\<close> returns in the call.
\<close>

definition cachedFetch ::
  "nat \<Rightarrow> FetchHotspotsParams \<Rightarrow> int \<Rightarrow> 'r state \<Rightarrow> 'r outcome \<times> 'r state" where
  "cachedFetch maxEntries params now s =
     (let key = hotspotsCacheKey params in
      case map_of (hotspotsCache s) key of
        None \<Rightarrow> startFetch maxEntries key now s
      | Some (InFlight t p) \<Rightarrow> (Dedupe p, s)
      | Some (Data d t) \<Rightarrow>
          if now - t < HOTSPOTS_CACHE_TTL_MS then (CacheHit d, s)
          else startFetch maxEntries key now s)"

definition fetchHotspotsGridCached ::
  "FetchHotspotsParams \<Rightarrow> int \<Rightarrow> 'r state \<Rightarrow> 'r outcome \<times> 'r state" where
  "fetchHotspotsGridCached = cachedFetch HOTSPOTS_CACHE_MAX_ENTRIES"

text \<open>
  The fetch succeeds: the \<^verbatim>\<open>then\<close> callback of \<^verbatim>\<open>doFetch\<close> runs,
  \<^verbatim>\<open>hotspotsCache.set(key, { data, ts: Date.now() })\<close>. A promise settles once; a
  promise that is not pending leaves the state alone.
\<close>

definition resolveFetch :: "nat \<Rightarrow> 'r \<Rightarrow> int \<Rightarrow> 'r state \<Rightarrow> 'r state" where
  "resolveFetch promise d now s =
     (case map_of (pending s) promise of
        None \<Rightarrow> s
      | Some key \<Rightarrow>
          s\<lparr>hotspotsCache := AList.update key (Data d now) (hotspotsCache s),
            pending := AList.delete promise (pending s)\<rparr>)"

text \<open>
  The fetch fails (\<^verbatim>\<open>throw new Error(`Hotspots: HTTP ${res.status}`)\<close>, a network error or
  an abort): the \<^verbatim>\<open>catch\<close> callback runs, \<^verbatim>\<open>hotspotsCache.delete(key)\<close>.
\<close>

definition rejectFetch :: "nat \<Rightarrow> 'r state \<Rightarrow> 'r state" where
  "rejectFetch promise s =
     (case map_of (pending s) promise of
        None \<Rightarrow> s
      | Some key \<Rightarrow>
          s\<lparr>hotspotsCache := AList.delete key (hotspotsCache s),
            pending := AList.delete promise (pending s)\<rparr>)"

text \<open>
  A run of the module is a sequence of events, in the order in which the single
  JavaScript thread executes them: a call, or the settling of a fetch.
\<close>

datatype 'r event =
    Call FetchHotspotsParams int
  | Resolve nat 'r int
  | Reject nat

fun step :: "nat \<Rightarrow> 'r event \<Rightarrow> 'r state \<Rightarrow> 'r state" where
  "step maxEntries (Call params now) s = snd (cachedFetch maxEntries params now s)"
| "step maxEntries (Resolve promise d now) s = resolveFetch promise d now s"
| "step maxEntries (Reject promise) s = rejectFetch promise s"

fun exec :: "nat \<Rightarrow> 'r event list \<Rightarrow> 'r state \<Rightarrow> 'r state" where
  "exec maxEntries [] s = s"
| "exec maxEntries (e # es) s = exec maxEntries es (step maxEntries e s)"

text \<open>The number of entries that hold a promise, and no data.\<close>

definition inFlightCount :: "'r cache \<Rightarrow> nat" where
  "inFlightCount c = length (filter (\<lambda>e. \<not> hasData (snd e)) c)"

text \<open>
  \<open>roomAtCalls maxEntries evs s\<close>: in the run of \<open>evs\<close> from \<open>s\<close>, fewer than
  \<open>maxEntries\<close> fetches are in flight whenever a call is made.
\<close>

fun roomAtCalls :: "nat \<Rightarrow> 'r event list \<Rightarrow> 'r state \<Rightarrow> bool" where
  "roomAtCalls maxEntries [] s = True"
| "roomAtCalls maxEntries (e # es) s =
     ((case e of Call params now \<Rightarrow> inFlightCount (hotspotsCache s) < maxEntries
               | Resolve promise d now \<Rightarrow> True
               | Reject promise \<Rightarrow> True)
      \<and> roomAtCalls maxEntries es (step maxEntries e s))"

text \<open>
  The invariant of the reachable states: keys are unique, at most one fetch is pending
  for a key, the entry of a pending fetch holds a promise, and the size is bounded.
\<close>

definition cacheInv :: "nat \<Rightarrow> 'r state \<Rightarrow> bool" where
  "cacheInv maxEntries s \<longleftrightarrow>
     distinct (map fst (hotspotsCache s)) \<and>
     distinct (map snd (pending s)) \<and>
     (\<forall>e \<in> set (pending s). \<exists>t q. map_of (hotspotsCache s) (snd e) = Some (InFlight t q)) \<and>
     length (hotspotsCache s) \<le> maxEntries"

text \<open>
  A family of distinct viewports (the west edge moves), and \<open>burst n\<close>: the first \<open>n\<close>
  of them requested at time 0, none of the fetches settled.
\<close>

definition viewport :: "nat \<Rightarrow> FetchHotspotsParams" where
  "viewport i = forBbox (''-74.'' @ natDigits i @ '',40.6,-73.9,40.8'')"

definition burst :: "nat \<Rightarrow> string event list" where
  "burst n = map (\<lambda>i. Call (viewport i) 0) [0..<n]"

section \<open>Map page: the hotspots retry loop\<close>









text \<open>\<^verbatim>\<open>s.includes(sub)\<close>: \<open>sub\<close> occurs in \<open>s\<close> as a contiguous substring.\<close>

fun includes' :: "string \<Rightarrow> string \<Rightarrow> bool" where
  "includes' [] sub = (sub = [])"
| "includes' (c # cs) sub = (take (length sub) (c # cs) = sub \<or> includes' cs sub)"












section \<open>Properties of the busiest bucket\<close>

lemma pickHour_cases: "pickHour best b = best \<or> pickHour best b = b"
  by (simp add: pickHour_def)

lemma pickHour_keeps:
  "count best < count (pickHour best b) \<or>
   (count best = count (pickHour best b) \<and> hour (pickHour best b) \<le> hour best)"
  by (simp add: pickHour_def)

lemma pickHour_beats:
  "count b < count (pickHour best b) \<or>
   (count b = count (pickHour best b) \<and> hour (pickHour best b) \<le> hour b)"
  by (simp add: pickHour_def) linarith

lemma foldl_pickHour_mem: "foldl pickHour b bs \<in> insert b (set bs)"
proof (induction bs arbitrary: b)
  case Nil
  show ?case by simp
next
  case (Cons x xs)
  have "foldl pickHour (pickHour b x) xs \<in> insert (pickHour b x) (set xs)"
    by (rule Cons.IH)
  with pickHour_cases [of b x] show ?case by auto
qed

lemma foldl_pickHour_acc:
  "count b < count (foldl pickHour b bs) \<or>
   (count b = count (foldl pickHour b bs) \<and> hour (foldl pickHour b bs) \<le> hour b)"
proof (induction bs arbitrary: b)
  case Nil
  show ?case by simp
next
  case (Cons x xs)
  from Cons.IH [of "pickHour b x"] pickHour_keeps [of b x] show ?case
    by simp linarith
qed

lemma foldl_pickHour_best:
  "x \<in> set bs \<Longrightarrow>
   count x < count (foldl pickHour b bs) \<or>
   (count x = count (foldl pickHour b bs) \<and> hour (foldl pickHour b bs) \<le> hour x)"
proof (induction bs arbitrary: b)
  case Nil
  then show ?case by simp
next
  case (Cons y ys)
  show ?case
  proof (cases "x \<in> set ys")
    case True
    then show ?thesis using Cons.IH [of "pickHour b y"] by simp
  next
    case False
    with Cons.prems have xy: "x = y" by simp
    from foldl_pickHour_acc [of "pickHour b y" ys] pickHour_beats [of y b] show ?thesis
      unfolding xy by simp linarith
  qed
qed

lemma pickDay_cases: "pickDay best b = best \<or> pickDay best b = b"
  by (simp add: pickDay_def)

lemma pickDay_keeps:
  "dcount best < dcount (pickDay best b) \<or>
   (dcount best = dcount (pickDay best b) \<and> day (pickDay best b) \<le> day best)"
  by (simp add: pickDay_def less_imp_le)

lemma pickDay_beats:
  "dcount b < dcount (pickDay best b) \<or>
   (dcount b = dcount (pickDay best b) \<and> day (pickDay best b) \<le> day b)"
  by (simp add: pickDay_def) (metis linorder_not_less order_less_le)

lemma day_step:
  fixes da db dc :: string and ca cb cc :: int
  assumes "ca < cb \<or> (ca = cb \<and> db \<le> da)" and "cb < cc \<or> (cb = cc \<and> dc \<le> db)"
  shows "ca < cc \<or> (ca = cc \<and> dc \<le> da)"
  using assms by (metis order_less_trans order_trans)

lemma foldl_pickDay_mem: "foldl pickDay b bs \<in> insert b (set bs)"
proof (induction bs arbitrary: b)
  case Nil
  show ?case by simp
next
  case (Cons x xs)
  have "foldl pickDay (pickDay b x) xs \<in> insert (pickDay b x) (set xs)"
    by (rule Cons.IH)
  with pickDay_cases [of b x] show ?case by auto
qed

lemma foldl_pickDay_acc:
  "dcount b < dcount (foldl pickDay b bs) \<or>
   (dcount b = dcount (foldl pickDay b bs) \<and> day (foldl pickDay b bs) \<le> day b)"
proof (induction bs arbitrary: b)
  case Nil
  show ?case by simp
next
  case (Cons x xs)
  from day_step [OF pickDay_keeps [of b x] Cons.IH [of "pickDay b x"]] show ?case
    by simp
qed

lemma foldl_pickDay_best:
  "x \<in> set bs \<Longrightarrow>
   dcount x < dcount (foldl pickDay b bs) \<or>
   (dcount x = dcount (foldl pickDay b bs) \<and> day (foldl pickDay b bs) \<le> day x)"
proof (induction bs arbitrary: b)
  case Nil
  then show ?case by simp
next
  case (Cons y ys)
  show ?case
  proof (cases "x \<in> set ys")
    case True
    then show ?thesis using Cons.IH [of "pickDay b y"] by simp
  next
    case False
    with Cons.prems have xy: "x = y" by simp
    from day_step [OF pickDay_beats [of y b] foldl_pickDay_acc [of "pickDay b y" ys]]
    show ?thesis unfolding xy by simp
  qed
qed

text \<open>
  Claim C9. \<open>busiestHour\<close> returns null exactly on the empty list; on a non-empty list it
  returns a bucket of the list whose count is maximal and, among the buckets of that
  count, one of smallest hour. \<open>busiestDay\<close> does the same with the smallest day label.
\<close>

theorem busiest_bucket_spec:
  "(busiestHour hs = None \<longleftrightarrow> hs = []) \<and>
   (hs \<noteq> [] \<longrightarrow>
      (\<exists>b \<in> set hs. busiestHour hs = Some b \<and>
         (\<forall>x \<in> set hs. count x \<le> count b) \<and>
         (\<forall>x \<in> set hs. count x = count b \<longrightarrow> hour b \<le> hour x))) \<and>
   (busiestDay ds = None \<longleftrightarrow> ds = []) \<and>
   (ds \<noteq> [] \<longrightarrow>
      (\<exists>b \<in> set ds. busiestDay ds = Some b \<and>
         (\<forall>x \<in> set ds. dcount x \<le> dcount b) \<and>
         (\<forall>x \<in> set ds. dcount x = dcount b \<longrightarrow> day b \<le> day x)))"
proof (intro conjI impI)
  show "busiestHour hs = None \<longleftrightarrow> hs = []"
    by (simp add: busiestHour_def split: list.splits)
  show "busiestDay ds = None \<longleftrightarrow> ds = []"
    by (simp add: busiestDay_def split: list.splits)
next
  assume "hs \<noteq> []"
  then obtain b0 rest where hs: "hs = b0 # rest" by (cases hs) auto
  let ?r = "foldl pickHour b0 rest"
  have mem: "?r \<in> set hs" using foldl_pickHour_mem [of b0 rest] by (simp add: hs)
  have best: "count x < count ?r \<or> (count x = count ?r \<and> hour ?r \<le> hour x)"
    if "x \<in> set hs" for x
  proof (cases "x \<in> set rest")
    case True
    then show ?thesis by (rule foldl_pickHour_best)
  next
    case False
    with that have "x = b0" by (simp add: hs)
    then show ?thesis using foldl_pickHour_acc [of b0 rest] by simp
  qed
  have "busiestHour hs = Some ?r" by (simp add: busiestHour_def hs)
  moreover have "\<forall>x \<in> set hs. count x \<le> count ?r" using best by force
  moreover have "\<forall>x \<in> set hs. count x = count ?r \<longrightarrow> hour ?r \<le> hour x" using best by force
  ultimately show "\<exists>b \<in> set hs. busiestHour hs = Some b \<and>
         (\<forall>x \<in> set hs. count x \<le> count b) \<and>
         (\<forall>x \<in> set hs. count x = count b \<longrightarrow> hour b \<le> hour x)"
    using mem by blast
next
  assume "ds \<noteq> []"
  then obtain b0 rest where ds: "ds = b0 # rest" by (cases ds) auto
  let ?r = "foldl pickDay b0 rest"
  have mem: "?r \<in> set ds" using foldl_pickDay_mem [of b0 rest] by (simp add: ds)
  have best: "dcount x < dcount ?r \<or> (dcount x = dcount ?r \<and> day ?r \<le> day x)"
    if "x \<in> set ds" for x
  proof (cases "x \<in> set rest")
    case True
    then show ?thesis by (rule foldl_pickDay_best)
  next
    case False
    with that have "x = b0" by (simp add: ds)
    then show ?thesis using foldl_pickDay_acc [of b0 rest] by simp
  qed
  have "busiestDay ds = Some ?r" by (simp add: busiestDay_def ds)
  moreover have "\<forall>x \<in> set ds. dcount x \<le> dcount ?r" using best by force
  moreover have "\<forall>x \<in> set ds. dcount x = dcount ?r \<longrightarrow> day ?r \<le> day x" using best by force
  ultimately show "\<exists>b \<in> set ds. busiestDay ds = Some b \<and>
         (\<forall>x \<in> set ds. dcount x \<le> dcount b) \<and>
         (\<forall>x \<in> set ds. dcount x = dcount b \<longrightarrow> day b \<le> day x)"
    using mem by blast
qed

theorem busiest_bucket_spec_witness:
  "busiestHour [\<lparr>hour = 9, count = 4\<rparr>, \<lparr>hour = 17, count = 7\<rparr>, \<lparr>hour = 8, count = 7\<rparr>]
     = Some \<lparr>hour = 8, count = 7\<rparr> \<and>
   busiestDay [\<lparr>day = ''Tue'', dcount = 3\<rparr>, \<lparr>day = ''Mon'', dcount = 3\<rparr>]
     = Some \<lparr>day = ''Mon'', dcount = 3\<rparr>"
  using busiest_bucket_spec
    [of "[\<lparr>hour = 9, count = 4\<rparr>, \<lparr>hour = 17, count = 7\<rparr>, \<lparr>hour = 8, count = 7\<rparr>]"
        "[\<lparr>day = ''Tue'', dcount = 3\<rparr>, \<lparr>day = ''Mon'', dcount = 3\<rparr>]"]
  by (simp add: busiestHour_def busiestDay_def pickHour_def pickDay_def)

section \<open>Properties of the zone selection\<close>

text \<open>
  Claim C10. \<open>addZone\<close> keeps the selection free of duplicates and at most \<open>MAX_ZONES\<close>
  (5) long; with an id already selected, or with five ids selected, the callback is not
  invoked and the selection is unchanged; otherwise the new selection is the old one
  with the id appended.
\<close>

theorem addZone_spec:
  "(zid \<in> set sel \<or> length sel \<ge> MAX_ZONES \<longrightarrow>
      addZone sel zid = None \<and> selectionAfterAddZone sel zid = sel) \<and>
   (zid \<notin> set sel \<and> length sel < MAX_ZONES \<longrightarrow>
      addZone sel zid = Some (sel @ [zid]) \<and> selectionAfterAddZone sel zid = sel @ [zid]) \<and>
   (distinct sel \<and> length sel \<le> MAX_ZONES \<longrightarrow>
      distinct (selectionAfterAddZone sel zid) \<and>
      length (selectionAfterAddZone sel zid) \<le> MAX_ZONES) \<and>
   MAX_ZONES = 5"
  by (simp add: addZone_def selectionAfterAddZone_def MAX_ZONES_def)

theorem addZone_spec_witness:
  "selectionAfterAddZone [3, 1] 4 = [3, 1] @ [4] \<and>
   selectionAfterAddZone [3, 1] 3 = [3, 1] \<and>
   selectionAfterAddZone [1, 2, 3, 4, 5] 6 = [1, 2, 3, 4, 5] \<and>
   distinct (selectionAfterAddZone [3, 1] 4) \<and>
   length (selectionAfterAddZone [3, 1] 4) \<le> MAX_ZONES"
proof -
  have a: "(4::int) \<notin> set [3, 1] \<and> length [3, 1::int] < MAX_ZONES"
    by (simp add: MAX_ZONES_def)
  have b: "distinct [3, 1::int] \<and> length [3, 1::int] \<le> MAX_ZONES"
    by (simp add: MAX_ZONES_def)
  have c: "(3::int) \<in> set [3, 1]"
    by simp
  have d: "length [1, 2, 3, 4, 5::int] \<ge> MAX_ZONES"
    by (simp add: MAX_ZONES_def)
  from addZone_spec [of 4 "[3, 1]"] addZone_spec [of 3 "[3, 1]"]
    addZone_spec [of 6 "[1, 2, 3, 4, 5]"] a b c d
  show ?thesis by blast
qed

section \<open>Properties of the key derivation\<close>

lemma natDigits_small: "n < 10 \<Longrightarrow> natDigits n = [''0123456789'' ! n]"
  by (simp add: natDigits.simps)

lemma natDigits_large:
  "\<not> n < 10 \<Longrightarrow> natDigits n = natDigits (n div 10) @ [''0123456789'' ! (n mod 10)]"
  by (subst natDigits.simps) simp

lemma String_defaults:
  "String 250 = ''250''" "String 7 = ''7''" "String 30 = ''30''" "String 3000 = ''3000''"
  by (simp_all add: String_def natDigits_small natDigits_large)

lemma key_forBbox: "hotspotsCacheKey (forBbox b) = b @ ''|250|7|30|3000''"
  by (simp add: hotspotsCacheKey_def forBbox_def orDefault_def pushIfPresent_def String_defaults)

lemma key_head: "\<exists>rest. hotspotsCacheKey p = bbox p @ CHR ''|'' # rest"
  by (simp add: hotspotsCacheKey_def)

lemma bbox_of_key:
  assumes "CHR ''|'' \<notin> set (bbox p)"
  shows "takeWhile (\<lambda>c. c \<noteq> CHR ''|'') (hotspotsCacheKey p) = bbox p"
proof -
  obtain rest where "hotspotsCacheKey p = bbox p @ CHR ''|'' # rest"
    using key_head by blast
  with assms show ?thesis
    by (auto simp: takeWhile_tail takeWhile_eq_all_conv)
qed

text \<open>
  Claim C1. The claim: two parameter sets get the same key only if they are the same
  request after default-filling; in particular a request with \<open>start = X\<close> and one with
  \<open>end = X\<close>, or one with \<open>hour_start = 5\<close> and one with \<open>hour_end = 5\<close>, never share a
  key. The code pushes the optional fields that are present one after the other, with
  neither a field name nor a marker for an absent field, so these pairs of requests do
  share a key: the cache answers one of them with the data of the other. (The sibling
  \<^verbatim>\<open>searchParams\<close> names every field, so the server is sent two different queries.)
\<close>

theorem hotspotsCacheKey_collision:
  "hotspotsCacheKey
     \<lparr>bbox = ''-74.1,40.6,-73.9,40.8'', cell_m = None, recent_days = None,
      baseline_days = None, limit = None, start = Some ''2024-01-01'', end' = None,
      hour_start = None, hour_end = None, violation_type = None\<rparr>
   = hotspotsCacheKey
     \<lparr>bbox = ''-74.1,40.6,-73.9,40.8'', cell_m = None, recent_days = None,
      baseline_days = None, limit = None, start = None, end' = Some ''2024-01-01'',
      hour_start = None, hour_end = None, violation_type = None\<rparr>
   \<and>
   hotspotsCacheKey
     \<lparr>bbox = ''-74.1,40.6,-73.9,40.8'', cell_m = None, recent_days = None,
      baseline_days = None, limit = None, start = None, end' = None,
      hour_start = Some 5, hour_end = None, violation_type = None\<rparr>
   = hotspotsCacheKey
     \<lparr>bbox = ''-74.1,40.6,-73.9,40.8'', cell_m = None, recent_days = None,
      baseline_days = None, limit = None, start = None, end' = None,
      hour_start = None, hour_end = Some 5, violation_type = None\<rparr>"
  by (simp add: hotspotsCacheKey_def pushIfPresent_def)

text \<open>
  Claim C2, as stated, fails: the two bounding boxes of the claim, which agree up to the
  fifth decimal digit, get different keys. The key derivation takes the \<open>bbox\<close> string as
  it is given; nothing rounds it.
\<close>

theorem key_keeps_unrounded_bbox_counterexample:
  "hotspotsCacheKey (forBbox ''-74.10000001,40.6,-73.9,40.8'')
     \<noteq> hotspotsCacheKey (forBbox ''-74.1,40.6,-73.90000004,40.8'')"
  by (simp add: key_forBbox)

text \<open>
  Claim C2, amended. The key is stable under what the derivation does normalise, and
  only under that: two parameter sets with the same \<open>bbox\<close> string and the same other
  fields after default-filling get the same key; and the \<open>bbox\<close> string enters the key
  verbatim, so two parameter sets with the same key have character-identical \<open>bbox\<close>
  strings (for strings without the separator \<open>|\<close>, as every list of coordinates is).
\<close>

theorem key_keeps_bbox_verbatim:
  "(CHR ''|'' \<notin> set (bbox p) \<and> CHR ''|'' \<notin> set (bbox q) \<and>
      hotspotsCacheKey p = hotspotsCacheKey q \<longrightarrow> bbox p = bbox q) \<and>
   (bbox p = bbox q \<and>
      orDefault (cell_m p) 250 = orDefault (cell_m q) 250 \<and>
      orDefault (recent_days p) 7 = orDefault (recent_days q) 7 \<and>
      orDefault (baseline_days p) 30 = orDefault (baseline_days q) 30 \<and>
      orDefault (limit p) 3000 = orDefault (limit q) 3000 \<and>
      start p = start q \<and> end' p = end' q \<and> hour_start p = hour_start q \<and>
      hour_end p = hour_end q \<and> violation_type p = violation_type q
      \<longrightarrow> hotspotsCacheKey p = hotspotsCacheKey q)"
proof (intro conjI impI)
  assume h: "CHR ''|'' \<notin> set (bbox p) \<and> CHR ''|'' \<notin> set (bbox q) \<and>
      hotspotsCacheKey p = hotspotsCacheKey q"
  then have "takeWhile (\<lambda>c. c \<noteq> CHR ''|'') (hotspotsCacheKey p)
      = takeWhile (\<lambda>c. c \<noteq> CHR ''|'') (hotspotsCacheKey q)"
    by simp
  with h show "bbox p = bbox q"
    by (metis bbox_of_key)
next
  assume "bbox p = bbox q \<and>
      orDefault (cell_m p) 250 = orDefault (cell_m q) 250 \<and>
      orDefault (recent_days p) 7 = orDefault (recent_days q) 7 \<and>
      orDefault (baseline_days p) 30 = orDefault (baseline_days q) 30 \<and>
      orDefault (limit p) 3000 = orDefault (limit q) 3000 \<and>
      start p = start q \<and> end' p = end' q \<and> hour_start p = hour_start q \<and>
      hour_end p = hour_end q \<and> violation_type p = violation_type q"
  then show "hotspotsCacheKey p = hotspotsCacheKey q"
    unfolding hotspotsCacheKey_def by presburger
qed

theorem key_keeps_bbox_verbatim_witness:
  "CHR ''|'' \<notin> set (bbox (forBbox ''-74.1,40.6,-73.9,40.8'')) \<and>
   bbox (forBbox ''-74.1,40.6,-73.9,40.8'')
     = bbox ((forBbox ''-74.1,40.6,-73.9,40.8'')\<lparr>cell_m := Some 250\<rparr>) \<and>
   hotspotsCacheKey (forBbox ''-74.1,40.6,-73.9,40.8'')
     = hotspotsCacheKey ((forBbox ''-74.1,40.6,-73.9,40.8'')\<lparr>cell_m := Some 250\<rparr>)"
  using key_keeps_bbox_verbatim
    [of "forBbox ''-74.1,40.6,-73.9,40.8''"
        "(forBbox ''-74.1,40.6,-73.9,40.8'')\<lparr>cell_m := Some 250\<rparr>"]
  by (simp add: forBbox_def orDefault_def)

section \<open>Properties of the hotspots cache\<close>

subsection \<open>Pruning\<close>

lemma set_pruneCandidates:
  "set (pruneCandidates k c) = {e \<in> set c. fst e \<noteq> k \<and> hasData (snd e)}"
  by (auto simp: pruneCandidates_def)

lemma pruneCandidates_head:
  assumes "pruneCandidates k c = v # rest"
  shows "v \<in> set c" and "fst v \<noteq> k" and "hasData (snd v)"
    and "\<forall>e \<in> set c. fst e \<noteq> k \<and> hasData (snd e) \<longrightarrow> ts (snd v) \<le> ts (snd e)"
proof -
  have v: "v \<in> set (pruneCandidates k c)" by (simp add: assms)
  then show "v \<in> set c" "fst v \<noteq> k" "hasData (snd v)"
    by (simp_all add: set_pruneCandidates)
  have "sorted (map (\<lambda>e. ts (snd e)) (pruneCandidates k c))"
    unfolding pruneCandidates_def by (rule sorted_sort_key)
  then have "\<forall>e \<in> set (pruneCandidates k c). ts (snd v) \<le> ts (snd e)"
    by (auto simp: assms)
  then show "\<forall>e \<in> set c. fst e \<noteq> k \<and> hasData (snd e) \<longrightarrow> ts (snd v) \<le> ts (snd e)"
    by (auto simp: set_pruneCandidates)
qed

lemma pruneCache_cases:
  "pruneCache m k c = c \<or>
   (\<exists>v \<in> set c. fst v \<noteq> k \<and> hasData (snd v) \<and> pruneCache m k c = AList.delete (fst v) c)"
proof (cases "pruneCandidates k c")
  case Nil
  then show ?thesis by (simp add: pruneCache_def)
next
  case (Cons v rest)
  from pruneCandidates_head(1-3) [OF Cons] show ?thesis
    by (auto simp: pruneCache_def Cons)
qed

lemma map_of_pruneCache_same: "map_of (pruneCache m k c) k = map_of c k"
  using pruneCache_cases [of m k c] by auto


lemma length_pruneCache_le: "length (pruneCache m k c) \<le> length c"
  using pruneCache_cases [of m k c] by (auto simp: AList.length_delete_le)

subsection \<open>One call\<close>

lemma startFetch_cache:
  "map_of (hotspotsCache (snd (startFetch m key now s))) key = Some (InFlight now (nextPromise s))"
  by (simp add: startFetch_def Let_def AList.update_conv')

lemma cachedFetch_expired:
  assumes "map_of (hotspotsCache s) (hotspotsCacheKey params) = Some (Data d t0)"
    and "t1 - t0 \<ge> HOTSPOTS_CACHE_TTL_MS"
  shows "cachedFetch m params t1 s = startFetch m (hotspotsCacheKey params) t1 s"
  using assms by (simp add: cachedFetch_def Let_def)

text \<open>
  Claim C4. An entry whose data was stored at \<open>t0\<close> and that is looked up at \<open>t1\<close> with
  \<open>t1 - t0 \<ge> HOTSPOTS_CACHE_TTL_MS\<close> (3000 ms) is not returned: the call is a miss, it
  issues a fresh fetch (a new promise, recorded as pending), and the expired entry is
  overwritten by the in-flight entry of that fetch.
\<close>

theorem lazy_ttl_expiry:
  assumes "map_of (hotspotsCache s) (hotspotsCacheKey params) = Some (Data d t0)"
    and "t1 - t0 \<ge> HOTSPOTS_CACHE_TTL_MS"
  shows "fst (fetchHotspotsGridCached params t1 s) = Miss (nextPromise s) \<and>
         map_of (hotspotsCache (snd (fetchHotspotsGridCached params t1 s))) (hotspotsCacheKey params)
           = Some (InFlight t1 (nextPromise s)) \<and>
         pending (snd (fetchHotspotsGridCached params t1 s))
           = (nextPromise s, hotspotsCacheKey params) # pending s \<and>
         HOTSPOTS_CACHE_TTL_MS = 3000"
proof -
  have "fetchHotspotsGridCached params t1 s
      = startFetch HOTSPOTS_CACHE_MAX_ENTRIES (hotspotsCacheKey params) t1 s"
    unfolding fetchHotspotsGridCached_def using assms by (rule cachedFetch_expired)
  then show ?thesis
    by (simp add: startFetch_cache) (simp add: startFetch_def Let_def HOTSPOTS_CACHE_TTL_MS_def)
qed

text \<open>
  Claim C7. A call for a key whose entry holds an in-flight promise returns that same
  promise and changes nothing: no fetch is issued, nothing is pruned. In particular a
  second call that follows a miss, before the fetch has settled, gets the promise of the
  first, so both callers receive the same response.
\<close>

theorem in_flight_dedupe:
  "(map_of (hotspotsCache s) (hotspotsCacheKey params) = Some (InFlight t p) \<longrightarrow>
      fetchHotspotsGridCached params now s = (Dedupe p, s)) \<and>
   (fst (fetchHotspotsGridCached params t s) = Miss p \<longrightarrow>
      fetchHotspotsGridCached params now (snd (fetchHotspotsGridCached params t s))
        = (Dedupe p, snd (fetchHotspotsGridCached params t s)))"
proof (intro conjI impI)
  show "fetchHotspotsGridCached params now s = (Dedupe p, s)"
    if "map_of (hotspotsCache s) (hotspotsCacheKey params) = Some (InFlight t p)"
    using that by (simp add: fetchHotspotsGridCached_def cachedFetch_def Let_def)
next
  let ?m = HOTSPOTS_CACHE_MAX_ENTRIES and ?k = "hotspotsCacheKey params"
  assume miss: "fst (fetchHotspotsGridCached params t s) = Miss p"
  then have "cachedFetch ?m params t s = startFetch ?m ?k t s \<and> p = nextPromise s"
    by (auto simp: fetchHotspotsGridCached_def cachedFetch_def Let_def startFetch_def
        split: option.splits HotspotsCacheEntry.splits if_splits)
  then have "map_of (hotspotsCache (snd (fetchHotspotsGridCached params t s))) ?k
      = Some (InFlight t p)"
    by (simp add: fetchHotspotsGridCached_def startFetch_cache)
  then show "fetchHotspotsGridCached params now (snd (fetchHotspotsGridCached params t s))
        = (Dedupe p, snd (fetchHotspotsGridCached params t s))"
    by (simp add: fetchHotspotsGridCached_def cachedFetch_def Let_def)
qed

lemma prune_evicts_oldest_stored:
  assumes full: "length c \<ge> maxEntries"
    and cand: "(k0, Data d0 t0) \<in> set c" "k0 \<noteq> excludeKey"
  shows "\<exists>vk vd vt. (vk, Data vd vt) \<in> set c \<and> vk \<noteq> excludeKey \<and>
           (\<forall>k d t. (k, Data d t) \<in> set c \<and> k \<noteq> excludeKey \<longrightarrow> vt \<le> t) \<and>
           pruneCache maxEntries excludeKey c = AList.delete vk c"
proof -
  have "(k0, Data d0 t0) \<in> set (pruneCandidates excludeKey c)"
    using cand by (simp add: set_pruneCandidates hasData_def)
  then obtain v rest where vr: "pruneCandidates excludeKey c = v # rest"
    by (cases "pruneCandidates excludeKey c") auto
  note h = pruneCandidates_head [OF vr]
  from h(3) obtain vd vt where v: "snd v = Data vd vt"
    by (cases "snd v") (auto simp: hasData_def)
  have mem: "(fst v, Data vd vt) \<in> set c"
    using h(1) v by (metis prod.collapse)
  have least: "\<forall>k d t. (k, Data d t) \<in> set c \<and> k \<noteq> excludeKey \<longrightarrow> vt \<le> t"
    using h(4) v by (force simp: hasData_def)
  have "pruneCache maxEntries excludeKey c = AList.delete (fst v) c"
    using full by (simp add: pruneCache_def vr)
  with mem h(2) least show ?thesis by blast
qed

lemma hit_leaves_cache_unchanged:
  "fst (cachedFetch m params now s) = CacheHit d \<Longrightarrow> snd (cachedFetch m params now s) = s"
  by (auto simp: cachedFetch_def Let_def startFetch_def
      split: option.splits HotspotsCacheEntry.splits if_splits)



lemma cachedFetch_Miss:
  assumes "fst (cachedFetch m params t s) = Miss p"
  shows "cachedFetch m params t s = startFetch m (hotspotsCacheKey params) t s"
    and "p = nextPromise s"
    and "\<forall>t' q. map_of (hotspotsCache s) (hotspotsCacheKey params) \<noteq> Some (InFlight t' q)"
  using assms
  by (auto simp: cachedFetch_def Let_def startFetch_def
      split: option.splits HotspotsCacheEntry.splits if_splits)

lemma cachedFetch_absent:
  "map_of (hotspotsCache s) (hotspotsCacheKey params) = None \<Longrightarrow>
   cachedFetch m params t s = startFetch m (hotspotsCacheKey params) t s"
  by (simp add: cachedFetch_def Let_def)


subsection \<open>The size bound\<close>

lemma length_update_present:
  "k \<in> fst ` set al \<Longrightarrow> length (AList.update k v al) = length al"
  by (induction al) auto

lemma length_update_le: "length (AList.update k v al) \<le> Suc (length al)"
  by (induction al) auto

lemma length_delete_present:
  "k \<in> fst ` set al \<Longrightarrow> length (AList.delete k al) < length al"
proof -
  assume "k \<in> fst ` set al"
  then obtain v where "(k, v) \<in> set al" by auto
  then show ?thesis
    unfolding AList.delete_eq by (rule length_filter_less) simp
qed

lemma distinct_pruneCache:
  "distinct (map fst c) \<Longrightarrow> distinct (map fst (pruneCache m k c))"
  using pruneCache_cases [of m k c] by (auto simp: AList.distinct_delete)

lemma map_of_pruneCache_inflight:
  assumes "distinct (map fst c)" and "map_of c k' = Some (InFlight t q)"
  shows "map_of (pruneCache m k c) k' = Some (InFlight t q)"
proof -
  from pruneCache_cases [of m k c] show ?thesis
  proof
    assume "pruneCache m k c = c"
    with assms show ?thesis by simp
  next
    assume "\<exists>v \<in> set c. fst v \<noteq> k \<and> hasData (snd v) \<and> pruneCache m k c = AList.delete (fst v) c"
    then obtain v where v: "v \<in> set c" "hasData (snd v)"
      "pruneCache m k c = AList.delete (fst v) c" by blast
    from v(1) assms(1) have "map_of c (fst v) = Some (snd v)"
      by (metis map_of_is_SomeI prod.collapse)
    with assms(2) v(2) have "fst v \<noteq> k'"
      by (auto simp: hasData_def)
    with assms(2) v(3) show ?thesis by simp
  qed
qed

lemma exists_data_entry:
  assumes "inFlightCount c < length c"
  shows "\<exists>e \<in> set c. hasData (snd e)"
proof (rule ccontr)
  assume "\<not> (\<exists>e \<in> set c. hasData (snd e))"
  then have "filter (\<lambda>e. \<not> hasData (snd e)) c = c" by simp
  with assms show False by (simp add: inFlightCount_def)
qed

lemma length_pruneCache_room:
  assumes len: "length c \<le> m" and room: "inFlightCount c < m" and absent: "k \<notin> fst ` set c"
  shows "Suc (length (pruneCache m k c)) \<le> m"
proof (cases "length c < m")
  case True
  then show ?thesis by (simp add: pruneCache_def)
next
  case False
  with len room have "inFlightCount c < length c" by simp
  then obtain e where e: "e \<in> set c" "hasData (snd e)"
    using exists_data_entry by blast
  with absent have "e \<in> set (pruneCandidates k c)"
    by (auto simp: set_pruneCandidates)
  then obtain v rest where vr: "pruneCandidates k c = v # rest"
    by (cases "pruneCandidates k c") auto
  from pruneCandidates_head(1) [OF vr] have "fst v \<in> fst ` set c" by simp
  then have "length (AList.delete (fst v) c) < length c"
    by (rule length_delete_present)
  with False len show ?thesis by (simp add: pruneCache_def vr)
qed

lemma cacheInvD:
  assumes "cacheInv m s"
  shows "distinct (map fst (hotspotsCache s))"
    and "distinct (map snd (pending s))"
    and "\<forall>e \<in> set (pending s). \<exists>t q. map_of (hotspotsCache s) (snd e) = Some (InFlight t q)"
    and "length (hotspotsCache s) \<le> m"
  using assms unfolding cacheInv_def by blast+

lemma cacheInvI:
  assumes "distinct (map fst (hotspotsCache s))"
    and "distinct (map snd (pending s))"
    and "\<forall>e \<in> set (pending s). \<exists>t q. map_of (hotspotsCache s) (snd e) = Some (InFlight t q)"
    and "length (hotspotsCache s) \<le> m"
  shows "cacheInv m s"
  using assms unfolding cacheInv_def by blast

lemma cacheInv_init: "cacheInv m init"
  by (simp add: cacheInv_def init_def)

lemma pending_other_key:
  assumes "distinct (map snd ps)" and "(p, k) \<in> set ps" and "e \<in> set ps" and "fst e \<noteq> p"
  shows "snd e \<noteq> k"
proof
  assume "snd e = k"
  with assms(1-3) have "e = (p, k)"
    by (metis distinct_map inj_onD snd_conv)
  with assms(4) show False by simp
qed

lemma set_delete_pending:
  "e \<in> set (AList.delete p ps) \<Longrightarrow> e \<in> set ps \<and> fst e \<noteq> p"
  by (auto simp: AList.delete_eq)

lemma distinct_snd_delete:
  "distinct (map snd ps) \<Longrightarrow> distinct (map snd (AList.delete p ps))"
  by (simp add: AList.delete_eq distinct_map_filter)

lemma cacheInv_resolve:
  assumes inv: "cacheInv m s"
  shows "cacheInv m (resolveFetch p d now s)"
proof (cases "map_of (pending s) p")
  case None
  with inv show ?thesis by (simp add: resolveFetch_def)
next
  case (Some key)
  then have mem: "(p, key) \<in> set (pending s)" by (rule map_of_SomeD)
  note dk = cacheInvD(1) [OF inv] and dp = cacheInvD(2) [OF inv]
    and fl = cacheInvD(3) [OF inv] and len = cacheInvD(4) [OF inv]
  from fl mem have "\<exists>t q. map_of (hotspotsCache s) key = Some (InFlight t q)" by force
  then have present: "key \<in> fst ` set (hotspotsCache s)"
    by (metis map_of_eq_None_iff option.distinct(1))
  let ?c = "AList.update key (Data d now) (hotspotsCache s)"
  let ?ps = "AList.delete p (pending s)"
  have 1: "distinct (map fst ?c)" using dk by (rule AList.distinct_update)
  have 2: "distinct (map snd ?ps)" using dp by (rule distinct_snd_delete)
  have 3: "\<forall>e \<in> set ?ps. \<exists>t q. map_of ?c (snd e) = Some (InFlight t q)"
  proof
    fix e assume "e \<in> set ?ps"
    then have e: "e \<in> set (pending s)" "fst e \<noteq> p" by (auto dest: set_delete_pending)
    then have "snd e \<noteq> key" using pending_other_key [OF dp mem] by blast
    with fl e(1) show "\<exists>t q. map_of ?c (snd e) = Some (InFlight t q)"
      by (simp add: AList.update_conv')
  qed
  have 4: "length ?c \<le> m" using len present by (simp add: length_update_present)
  from 1 2 3 4 show ?thesis by (intro cacheInvI) (simp_all add: resolveFetch_def Some)
qed

lemma cacheInv_reject:
  assumes inv: "cacheInv m s"
  shows "cacheInv m (rejectFetch p s)"
proof (cases "map_of (pending s) p")
  case None
  with inv show ?thesis by (simp add: rejectFetch_def)
next
  case (Some key)
  then have mem: "(p, key) \<in> set (pending s)" by (rule map_of_SomeD)
  note dk = cacheInvD(1) [OF inv] and dp = cacheInvD(2) [OF inv]
    and fl = cacheInvD(3) [OF inv] and len = cacheInvD(4) [OF inv]
  let ?c = "AList.delete key (hotspotsCache s)"
  let ?ps = "AList.delete p (pending s)"
  have 1: "distinct (map fst ?c)" using dk by (rule AList.distinct_delete)
  have 2: "distinct (map snd ?ps)" using dp by (rule distinct_snd_delete)
  have 3: "\<forall>e \<in> set ?ps. \<exists>t q. map_of ?c (snd e) = Some (InFlight t q)"
  proof
    fix e assume "e \<in> set ?ps"
    then have e: "e \<in> set (pending s)" "fst e \<noteq> p" by (auto dest: set_delete_pending)
    then have "snd e \<noteq> key" using pending_other_key [OF dp mem] by blast
    with fl e(1) show "\<exists>t q. map_of ?c (snd e) = Some (InFlight t q)"
      by simp
  qed
  have 4: "length ?c \<le> m"
    using len AList.length_delete_le [of key "hotspotsCache s"] by simp
  from 1 2 3 4 show ?thesis by (intro cacheInvI) (simp_all add: rejectFetch_def Some)
qed

lemma cacheInv_startFetch:
  assumes inv: "cacheInv m s" and room: "inFlightCount (hotspotsCache s) < m"
    and notfl: "\<forall>t q. map_of (hotspotsCache s) key \<noteq> Some (InFlight t q)"
  shows "cacheInv m (snd (startFetch m key now s))"
proof -
  note dk = cacheInvD(1) [OF inv] and dp = cacheInvD(2) [OF inv]
    and fl = cacheInvD(3) [OF inv] and len = cacheInvD(4) [OF inv]
  let ?c' = "pruneCache m key (hotspotsCache s)"
  let ?c = "AList.update key (InFlight now (nextPromise s)) ?c'"
  let ?ps = "(nextPromise s, key) # pending s"
  have 1: "distinct (map fst ?c)"
    using dk by (simp add: distinct_pruneCache AList.distinct_update)
  have fresh: "key \<notin> snd ` set (pending s)"
    using fl notfl by force
  have 2: "distinct (map snd ?ps)" using dp fresh by simp
  have 3: "\<forall>e \<in> set ?ps. \<exists>t q. map_of ?c (snd e) = Some (InFlight t q)"
  proof
    fix e assume "e \<in> set ?ps"
    then consider "e = (nextPromise s, key)" | "e \<in> set (pending s)" by auto
    then show "\<exists>t q. map_of ?c (snd e) = Some (InFlight t q)"
    proof cases
      case 1
      then show ?thesis by (simp add: AList.update_conv')
    next
      case 2
      with fl obtain t q where "map_of (hotspotsCache s) (snd e) = Some (InFlight t q)"
        by blast
      with dk have "map_of ?c' (snd e) = Some (InFlight t q)"
        by (rule map_of_pruneCache_inflight)
      then show ?thesis by (simp add: AList.update_conv')
    qed
  qed
  have 4: "length ?c \<le> m"
  proof (cases "key \<in> fst ` set (hotspotsCache s)")
    case True
    then have "map_of ?c' key \<noteq> None"
      by (simp add: map_of_pruneCache_same map_of_eq_None_iff)
    then have "key \<in> fst ` set ?c'" by (simp add: map_of_eq_None_iff)
    then have "length ?c = length ?c'" by (rule length_update_present)
    with len length_pruneCache_le [of m key "hotspotsCache s"] show ?thesis by simp
  next
    case False
    with len room have "Suc (length ?c') \<le> m" by (rule length_pruneCache_room)
    with length_update_le [of key "InFlight now (nextPromise s)" ?c'] show ?thesis by simp
  qed
  from 1 2 3 4 show ?thesis by (intro cacheInvI) (simp_all add: startFetch_def Let_def)
qed

lemma cacheInv_call:
  assumes inv: "cacheInv m s" and room: "inFlightCount (hotspotsCache s) < m"
  shows "cacheInv m (snd (cachedFetch m params now s))"
proof (cases "cachedFetch m params now s = startFetch m (hotspotsCacheKey params) now s")
  case True
  then have "fst (cachedFetch m params now s) = Miss (nextPromise s)"
    by (simp add: startFetch_def Let_def)
  from cachedFetch_Miss(3) [OF this] inv room show ?thesis
    unfolding True by (rule cacheInv_startFetch [rotated 2])
next
  case False
  then have "snd (cachedFetch m params now s) = s"
    by (auto simp: cachedFetch_def Let_def split: option.splits HotspotsCacheEntry.splits if_splits)
  with inv show ?thesis by simp
qed

lemma cacheInv_exec:
  "cacheInv m s \<Longrightarrow> roomAtCalls m evs s \<Longrightarrow> cacheInv m (exec m evs s)"
proof (induction evs arbitrary: s)
  case Nil
  then show ?case by simp
next
  case (Cons e evs)
  have "cacheInv m (step m e s)"
  proof (cases e)
    case (Call params now)
    with Cons.prems show ?thesis by (simp add: cacheInv_call)
  next
    case (Resolve p d now)
    with Cons.prems show ?thesis by (simp add: cacheInv_resolve)
  next
    case (Reject p)
    with Cons.prems show ?thesis by (simp add: cacheInv_reject)
  qed
  moreover from Cons.prems have "roomAtCalls m evs (step m e s)" by simp
  ultimately show ?case using Cons.IH by simp
qed

text \<open>
  Claim C5, amended. In every run from the empty cache in which fewer than
  \<open>HOTSPOTS_CACHE_MAX_ENTRIES\<close> (50) fetches are in flight whenever a call is made, the
  cache never holds more than 50 entries, however many requests are issued: a miss on a
  full cache evicts a stored entry before it inserts. (Entries in flight are never
  evicted, so the bound depends on that condition.)
\<close>

theorem size_bounded_below_capacity:
  assumes "roomAtCalls HOTSPOTS_CACHE_MAX_ENTRIES evs init"
  shows "length (hotspotsCache (exec HOTSPOTS_CACHE_MAX_ENTRIES evs init))
           \<le> HOTSPOTS_CACHE_MAX_ENTRIES \<and> HOTSPOTS_CACHE_MAX_ENTRIES = 50"
  using cacheInvD(4) [OF cacheInv_exec [OF cacheInv_init assms]]
  by (simp add: HOTSPOTS_CACHE_MAX_ENTRIES_def)

subsection \<open>Distinct viewports\<close>

lemma digit_inj:
  "i < 10 \<Longrightarrow> j < 10 \<Longrightarrow> ''0123456789'' ! i = ''0123456789'' ! j \<Longrightarrow> i = j"
  using nth_eq_iff_index_eq [of "''0123456789''" i j] by simp

lemma natDigits_nonempty: "natDigits n \<noteq> []"
  by (subst natDigits.simps) simp

lemma natDigits_inj: "natDigits n = natDigits m \<Longrightarrow> n = m"
proof (induction n arbitrary: m rule: natDigits.induct)
  case (1 n)
  show ?case
  proof (cases "n < 10")
    case True
    show ?thesis
    proof (cases "m < 10")
      case m: True
      with True "1.prems" show ?thesis
        by (simp add: natDigits_small digit_inj)
    next
      case False
      with True "1.prems" natDigits_nonempty [of "m div 10"] show ?thesis
        by (simp add: natDigits_small natDigits_large)
    qed
  next
    case False
    show ?thesis
    proof (cases "m < 10")
      case True
      with False "1.prems" natDigits_nonempty [of "n div 10"] show ?thesis
        by (simp add: natDigits_small natDigits_large)
    next
      case m: False
      with False "1.prems" have eq: "natDigits (n div 10) = natDigits (m div 10)"
        and d: "''0123456789'' ! (n mod 10) = ''0123456789'' ! (m mod 10)"
        by (simp_all add: natDigits_large)
      from "1.IH" [OF False eq] have "n div 10 = m div 10" .
      moreover from d have "n mod 10 = m mod 10" by (intro digit_inj) simp_all
      ultimately show ?thesis by (metis div_mult_mod_eq)
    qed
  qed
qed

lemma key_viewport:
  "hotspotsCacheKey (viewport i) = ''-74.'' @ natDigits i @ '',40.6,-73.9,40.8|250|7|30|3000''"
  by (simp add: viewport_def key_forBbox)

lemma key_viewport_inj:
  "hotspotsCacheKey (viewport i) = hotspotsCacheKey (viewport j) \<Longrightarrow> i = j"
  by (simp add: key_viewport natDigits_inj)

subsection \<open>A burst of concurrent misses\<close>

lemma pruneCache_no_data:
  "\<forall>e \<in> set c. \<not> hasData (snd e) \<Longrightarrow> pruneCache m k c = c"
  using pruneCache_cases [of m k c] by auto

lemma length_update_absent:
  "k \<notin> fst ` set al \<Longrightarrow> length (AList.update k v al) = Suc (length al)"
  by (induction al) auto

lemma set_update_sub: "set (AList.update k v al) \<subseteq> insert (k, v) (set al)"
  by (induction al) auto

lemma burst_grows:
  assumes "\<forall>e \<in> set (hotspotsCache s). \<not> hasData (snd e)"
    and "\<forall>i \<ge> a. hotspotsCacheKey (viewport i) \<notin> fst ` set (hotspotsCache s)"
  shows "length (hotspotsCache (exec m (map (\<lambda>i. Call (viewport i) 0) [a..<a + n]) s))
           = length (hotspotsCache s) + n"
  using assms
proof (induction n arbitrary: a s)
  case 0
  then show ?case by simp
next
  case (Suc n)
  let ?k = "hotspotsCacheKey (viewport a)"
  let ?s' = "snd (cachedFetch m (viewport a) 0 s)"
  let ?c' = "AList.update ?k (InFlight 0 (nextPromise s)) (hotspotsCache s)"
  have absent: "?k \<notin> fst ` set (hotspotsCache s)" using Suc.prems(2) by simp
  then have "map_of (hotspotsCache s) ?k = None" by (simp add: map_of_eq_None_iff)
  then have "cachedFetch m (viewport a) 0 s = startFetch m ?k 0 s"
    by (rule cachedFetch_absent)
  then have c': "hotspotsCache ?s' = ?c'"
    by (simp add: startFetch_def Let_def pruneCache_no_data [OF Suc.prems(1)])
  have len: "length (hotspotsCache ?s') = Suc (length (hotspotsCache s))"
    unfolding c' using absent by (rule length_update_absent)
  have 1: "\<forall>e \<in> set (hotspotsCache ?s'). \<not> hasData (snd e)"
    unfolding c' using Suc.prems(1) set_update_sub [of ?k "InFlight 0 (nextPromise s)" "hotspotsCache s"]
    by (auto simp: hasData_def)
  have 2: "\<forall>i \<ge> Suc a. hotspotsCacheKey (viewport i) \<notin> fst ` set (hotspotsCache ?s')"
  proof (intro allI impI)
    fix i assume i: "Suc a \<le> i"
    then have "hotspotsCacheKey (viewport i) \<noteq> ?k"
      using key_viewport_inj [of i a] by auto
    moreover from i have "hotspotsCacheKey (viewport i) \<notin> fst ` set (hotspotsCache s)"
      using Suc.prems(2) by simp
    ultimately show "hotspotsCacheKey (viewport i) \<notin> fst ` set (hotspotsCache ?s')"
      unfolding c' by (simp add: AList.dom_update)
  qed
  have "[a..<a + Suc n] = a # [Suc a..<Suc a + n]"
    by (simp add: upt_conv_Cons)
  then show ?case
    using Suc.IH [OF 1 2] len by simp
qed

text \<open>
  Claim C5, as stated, fails for concurrent misses: 51 requests for 51 different
  viewports, made before any fetch settles, leave 51 entries in the cache, more than
  \<open>HOTSPOTS_CACHE_MAX_ENTRIES\<close>: pruning only considers entries that hold data.
\<close>

theorem size_bound_counterexample:
  "length (hotspotsCache (exec HOTSPOTS_CACHE_MAX_ENTRIES (burst 51) init)) = 51 \<and>
   \<not> 51 \<le> HOTSPOTS_CACHE_MAX_ENTRIES"
  using burst_grows [of init 0 HOTSPOTS_CACHE_MAX_ENTRIES 51]
  by (simp add: burst_def init_def HOTSPOTS_CACHE_MAX_ENTRIES_def)

lemmas cache_eval =
  fetchHotspotsGridCached_def cachedFetch_def startFetch_def pruneCache_def pruneCandidates_def
  hasData_def resolveFetch_def rejectFetch_def init_def key_forBbox inFlightCount_def
  HOTSPOTS_CACHE_TTL_MS_def HOTSPOTS_CACHE_MAX_ENTRIES_def Let_def AList.delete_eq

text \<open>
  Claim C3, amended. When the cache is full and holds a stored entry under another key
  than the one being fetched, the victim of the eviction is such an entry with the
  oldest \<open>ts\<close>, the time at which its data was stored; and a cache hit leaves the state
  as it is, so it does not refresh \<open>ts\<close>. Eviction follows the time of the store, not
  the time of the last access.
\<close>

theorem eviction_by_store_time:
  "(length c \<ge> maxEntries \<and> (k0, Data d0 t0) \<in> set c \<and> k0 \<noteq> excludeKey \<longrightarrow>
      (\<exists>vk vd vt. (vk, Data vd vt) \<in> set c \<and> vk \<noteq> excludeKey \<and>
         (\<forall>k d t. (k, Data d t) \<in> set c \<and> k \<noteq> excludeKey \<longrightarrow> vt \<le> t) \<and>
         pruneCache maxEntries excludeKey c = AList.delete vk c)) \<and>
   (fst (cachedFetch maxEntries params now s) = CacheHit d \<longrightarrow>
      snd (cachedFetch maxEntries params now s) = s)"
  using prune_evicts_oldest_stored [of maxEntries c k0 d0 t0 excludeKey]
    hit_leaves_cache_unchanged [of maxEntries params now s d]
  by blast

theorem eviction_by_store_time_witness:
  "pruneCache 2 ''C|250|7|30|3000''
     [(''A|250|7|30|3000'', Data ''a'' 5), (''B|250|7|30|3000'', Data ''b'' 15)]
   = [(''B|250|7|30|3000'', Data ''b'' 15)] \<and>
   snd (cachedFetch 2 (forBbox ''A'') 20
     \<lparr>hotspotsCache = [(''A|250|7|30|3000'', Data ''a'' 5), (''B|250|7|30|3000'', Data ''b'' 15)],
      pending = [], nextPromise = 2\<rparr>)
   = \<lparr>hotspotsCache = [(''A|250|7|30|3000'', Data ''a'' 5), (''B|250|7|30|3000'', Data ''b'' 15)],
      pending = [], nextPromise = 2\<rparr>"
proof -
  let ?c = "[(''A|250|7|30|3000'', Data ''a'' 5), (''B|250|7|30|3000'', Data ''b'' (15::int))]"
  let ?s = "\<lparr>hotspotsCache = ?c, pending = [], nextPromise = 2\<rparr>"
  have h1: "length ?c \<ge> 2 \<and> (''A|250|7|30|3000'', Data ''a'' 5) \<in> set ?c \<and>
      ''A|250|7|30|3000'' \<noteq> ''C|250|7|30|3000''"
    by simp
  have h2: "fst (cachedFetch 2 (forBbox ''A'') 20 ?s) = CacheHit ''a''"
    by (simp add: cache_eval)
  from eviction_by_store_time
    [of 2 ?c "''A|250|7|30|3000''" "''a''" 5 "''C|250|7|30|3000''" "forBbox ''A''" 20 ?s "''a''"]
    h1 h2
  have "(\<exists>vk vd vt. (vk, Data vd vt) \<in> set ?c \<and>
         (\<forall>k d t. (k, Data d t) \<in> set ?c \<and> k \<noteq> ''C|250|7|30|3000'' \<longrightarrow> vt \<le> t) \<and>
         pruneCache 2 ''C|250|7|30|3000'' ?c = AList.delete vk ?c)"
    and hit: "snd (cachedFetch 2 (forBbox ''A'') 20 ?s) = ?s"
    by blast+
  then obtain vk vd vt where v: "(vk, Data vd vt) \<in> set ?c"
    and least: "\<forall>k d t. (k, Data d t) \<in> set ?c \<and> k \<noteq> ''C|250|7|30|3000'' \<longrightarrow> vt \<le> t"
    and pr: "pruneCache 2 ''C|250|7|30|3000'' ?c = AList.delete vk ?c"
    by blast
  from least have "(''A|250|7|30|3000'', Data ''a'' 5) \<in> set ?c \<and>
      ''A|250|7|30|3000'' \<noteq> ''C|250|7|30|3000'' \<longrightarrow> vt \<le> 5"
    by (rule allE [where x = "''A|250|7|30|3000''"]) blast
  then have "vt \<le> 5" by simp
  with v have "vk = ''A|250|7|30|3000''" by auto
  with pr hit show ?thesis by (simp add: AList.delete_eq)
qed

text \<open>
  Claim C3, as stated, fails: with capacity 2, after A and B are inserted and A is read
  (a hit), inserting C evicts A, the entry stored first, and keeps B.
\<close>

theorem lru_order_counterexample:
  "fst (cachedFetch 2 (forBbox ''A'') 20
     (exec 2 [Call (forBbox ''A'') 0, Resolve 0 ''a'' 5,
              Call (forBbox ''B'') 10, Resolve 1 ''b'' 15] init)) = CacheHit ''a'' \<and>
   hotspotsCache
     (exec 2 [Call (forBbox ''A'') 0, Resolve 0 ''a'' 5,
              Call (forBbox ''B'') 10, Resolve 1 ''b'' 15,
              Call (forBbox ''A'') 20,
              Call (forBbox ''C'') 30] init)
   = [(''B|250|7|30|3000'', Data ''b'' 15), (''C|250|7|30|3000'', InFlight 30 2)]"
  by (simp add: cache_eval)

theorem lazy_ttl_expiry_witness:
  "fst (fetchHotspotsGridCached (forBbox ''A'') 3005
     \<lparr>hotspotsCache = [(''A|250|7|30|3000'', Data ''a'' 5)], pending = [], nextPromise = 1\<rparr>)
   = Miss 1"
proof -
  let ?s = "\<lparr>hotspotsCache = [(''A|250|7|30|3000'', Data ''a'' 5)], pending = [], nextPromise = 1\<rparr>"
  have h1: "map_of (hotspotsCache ?s) (hotspotsCacheKey (forBbox ''A'')) = Some (Data ''a'' 5)"
    by (simp add: key_forBbox)
  have h2: "3005 - 5 \<ge> HOTSPOTS_CACHE_TTL_MS"
    by (simp add: HOTSPOTS_CACHE_TTL_MS_def)
  from lazy_ttl_expiry [OF h1 h2] show ?thesis by simp
qed

theorem in_flight_dedupe_witness:
  "fetchHotspotsGridCached (forBbox ''A'') 7
     \<lparr>hotspotsCache = [(''A|250|7|30|3000'', InFlight 5 0)],
      pending = [(0, ''A|250|7|30|3000'')], nextPromise = 1\<rparr>
   = (Dedupe 0,
      \<lparr>hotspotsCache = [(''A|250|7|30|3000'', InFlight 5 0)],
       pending = [(0, ''A|250|7|30|3000'')], nextPromise = 1\<rparr>) \<and>
   fst (fetchHotspotsGridCached (forBbox ''A'') 7
          (snd (fetchHotspotsGridCached (forBbox ''A'') 5 (init :: string state))))
   = Dedupe 0"
proof -
  let ?s = "\<lparr>hotspotsCache = [(''A|250|7|30|3000'', InFlight 5 0)],
      pending = [(0, ''A|250|7|30|3000'')], nextPromise = 1\<rparr>"
  have h1: "map_of (hotspotsCache ?s) (hotspotsCacheKey (forBbox ''A'')) = Some (InFlight 5 0)"
    by (simp add: key_forBbox)
  have h2: "fst (fetchHotspotsGridCached (forBbox ''A'') 5 (init :: string state)) = Miss 0"
    by (simp add: cache_eval)
  from in_flight_dedupe [of ?s "forBbox ''A''" 5 0 7] h1
  have a: "fetchHotspotsGridCached (forBbox ''A'') 7 ?s = (Dedupe 0, ?s)"
    by blast
  from in_flight_dedupe [of "init :: string state" "forBbox ''A''" 5 0 7] h2
  have b: "fetchHotspotsGridCached (forBbox ''A'') 7
      (snd (fetchHotspotsGridCached (forBbox ''A'') 5 (init :: string state)))
    = (Dedupe 0, snd (fetchHotspotsGridCached (forBbox ''A'') 5 (init :: string state)))"
    by blast
  show ?thesis
    by (rule conjI, rule a) (simp only: b fst_conv)
qed


theorem size_bounded_below_capacity_witness:
  "roomAtCalls HOTSPOTS_CACHE_MAX_ENTRIES
     [Call (forBbox ''A'') 0, Call (forBbox ''B'') 1, Resolve 0 ''a'' 5, Reject 1,
      Call (forBbox ''A'') 10] init \<and>
   length (hotspotsCache (exec HOTSPOTS_CACHE_MAX_ENTRIES
     [Call (forBbox ''A'') 0, Call (forBbox ''B'') 1, Resolve 0 ''a'' 5, Reject 1,
      Call (forBbox ''A'') 10] init)) \<le> HOTSPOTS_CACHE_MAX_ENTRIES"
proof -
  have h: "roomAtCalls HOTSPOTS_CACHE_MAX_ENTRIES
     [Call (forBbox ''A'') 0, Call (forBbox ''B'') 1, Resolve 0 ''a'' 5, Reject 1,
      Call (forBbox ''A'') 10] init"
    by (simp add: cache_eval)
  from size_bounded_below_capacity [OF h] h show ?thesis by simp
qed

section \<open>Properties of the retry loop\<close>


lemma includes_429: "includes' ''Hotspots: HTTP 429'' ''429''"
  by simp

lemma includes_500: "\<not> includes' ''Hotspots: HTTP 500'' ''429''"
  by simp













end
